theory Spec2Isabelle
  imports Complex_Main "HOL-Library.Sublist"
begin

section \<open>Python strings\<close>

text \<open>
  A Python \<open>str\<close> is a sequence of Unicode code points. The decoder's placeholder glyph
  (U+25CA) lies outside the range of \<^typ>\<open>char\<close>, so a string is modelled as the list of
  its code points; \<open>str\<close> embeds an ASCII literal.
\<close>

type_synonym pystr = "nat list"

definition str :: "string \<Rightarrow> pystr" where
  "str s = map of_char s"

text \<open>The code points that \<open>str.strip()\<close> and \<open>str.split()\<close> treat as whitespace.\<close>

definition isspace :: "nat \<Rightarrow> bool" where
  "isspace c = ((9 \<le> c \<and> c \<le> 13) \<or> (28 \<le> c \<and> c \<le> 32) \<or> c = 133 \<or> c = 160 \<or> c = 5760
      \<or> (8192 \<le> c \<and> c \<le> 8202) \<or> c = 8232 \<or> c = 8233 \<or> c = 8239 \<or> c = 8287 \<or> c = 12288)"

text \<open>\<open>s.strip()\<close>: leading and trailing whitespace removed.\<close>

definition strip :: "pystr \<Rightarrow> pystr" where
  "strip s = rev (dropWhile isspace (rev (dropWhile isspace s)))"

datatype error = ValueError

text \<open>
  \<open>s.split(sep)\<close>: the scan goes from left to right, cuts at every occurrence of \<open>sep\<close> and
  resumes behind it; an empty separator raises \<open>ValueError\<close>. \<open>cur\<close> is the piece being
  collected.
\<close>

fun split_from :: "pystr \<Rightarrow> pystr \<Rightarrow> pystr \<Rightarrow> pystr list" where
  "split_from sep cur [] = [cur]"
| "split_from sep cur (c # cs) =
     (if prefix sep (c # cs) then cur # split_from sep [] (drop (length sep - 1) cs)
      else split_from sep (cur @ [c]) cs)"

definition split_sep :: "pystr \<Rightarrow> pystr \<Rightarrow> error + pystr list" where
  "split_sep s sep = (if sep = [] then Inl ValueError else Inr (split_from sep [] s))"

text \<open>
  \<open>s.split()\<close> without a separator: the pieces are the maximal runs of non-whitespace;
  no piece is empty.
\<close>

fun split_ws_from :: "pystr \<Rightarrow> pystr \<Rightarrow> pystr list" where
  "split_ws_from cur [] = (if cur = [] then [] else [cur])"
| "split_ws_from cur (c # cs) =
     (if isspace c then (if cur = [] then [] else [cur]) @ split_ws_from [] cs
      else split_ws_from (cur @ [c]) cs)"

definition split_ws :: "pystr \<Rightarrow> pystr list" where
  "split_ws s = split_ws_from [] s"

text \<open>\<open>s.endswith(suf)\<close>.\<close>

definition endswith :: "pystr \<Rightarrow> pystr \<Rightarrow> bool" where
  "endswith s suf = suffix suf s"

text \<open>\<open>d.get(k, default)\<close> on a dictionary given by its literal.\<close>

definition dict_get :: "(pystr \<times> pystr) list \<Rightarrow> pystr \<Rightarrow> pystr \<Rightarrow> pystr" where
  "dict_get d k dflt = (case map_of d k of Some v \<Rightarrow> v | None \<Rightarrow> dflt)"

section \<open>The decoder\<close>

definition morse_code_map :: "(pystr \<times> pystr) list" where
  "morse_code_map = map (\<lambda>(k, v). (str k, str v))
    [(''.-'', ''A''), (''-...'', ''B''), (''-.-.'', ''C''), (''-..'', ''D''), (''.'', ''E''),
     (''..-.'', ''F''), (''--.'', ''G''), (''....'', ''H''), (''..'', ''I''), (''.---'', ''J''),
     (''-.-'', ''K''), (''.-..'', ''L''), (''--'', ''M''), (''-.'', ''N''), (''---'', ''O''),
     (''.--.'', ''P''), (''--.-'', ''Q''), (''.-.'', ''R''), (''...'', ''S''), (''-'', ''T''),
     (''..-'', ''U''), (''...-'', ''V''), (''.--'', ''W''), (''-..-'', ''X''), (''-.--'', ''Y''),
     (''--..'', ''Z''), (''-----'', ''0''), (''.----'', ''1''), (''..---'', ''2''),
     (''...--'', ''3''), (''....-'', ''4''), (''.....'', ''5''), (''-....'', ''6''),
     (''--...'', ''7''), (''---..'', ''8''), (''----.'', ''9''), (''.-.-.-'', ''.''),
     (''-.-.--'', ''!''), (''--..--'', '','')]"

text \<open>The lozenge U+25CA, and the default of the lookup: the lozenge between two spaces.\<close>

definition lozenge :: nat where
  "lozenge = 9674"

definition placeholder :: pystr where
  "placeholder = [32, lozenge, 32]"

text \<open>
  \<open>decode_morse_code\<close>: the outer loop runs over the words, the inner loop over the letters
  of a word; \<open>decoded\<close> is the accumulator of both.
\<close>

definition decode_letters :: "pystr \<Rightarrow> pystr list \<Rightarrow> pystr" where
  "decode_letters decoded letters =
     foldl (\<lambda>d letter. d @ dict_get morse_code_map letter placeholder) decoded letters"

definition decode_words :: "pystr \<Rightarrow> pystr list \<Rightarrow> pystr" where
  "decode_words decoded words =
     foldl (\<lambda>d word. decode_letters d (split_ws word) @ str '' '') decoded words"

definition decode_morse_code :: "pystr \<Rightarrow> error + pystr" where
  "decode_morse_code morse =
     (case split_sep (strip morse) (str ''   '') of
        Inl e \<Rightarrow> Inl e
      | Inr words \<Rightarrow> Inr (strip (decode_words [] words)))"

section \<open>The encoder\<close>

text \<open>
  Time is what \<open>time.time()\<close> returns. The clock is a parameter: \<open>clk n\<close> is the value of the
  \<open>n\<close>-th call of \<open>time.time()\<close> in the session, and the state counts the calls made so far.
  Seconds are rationals; the rounding of Python's floats is not modelled.
\<close>

type_synonym clock = "nat \<Rightarrow> rat"

record encoder =
  blink_threshold :: rat
  blink_start_time :: rat
  last_blink_end :: rat
  morse_code :: pystr
  clock_reads :: nat

definition time_time :: "clock \<Rightarrow> encoder \<Rightarrow> rat \<times> encoder" where
  "time_time clk s = (clk (clock_reads s), s\<lparr>clock_reads := Suc (clock_reads s)\<rparr>)"

text \<open>\<open>__init__\<close>: the fields the encoder uses.\<close>

definition init :: "clock \<Rightarrow> rat \<Rightarrow> encoder" where
  "init clk threshold =
     \<lparr>blink_threshold = threshold, blink_start_time = 0, last_blink_end = clk 0,
      morse_code = [], clock_reads = 1\<rparr>"

text \<open>
  A landmark of the face mesh, and the landmarks of one detected face. Face Mesh returns the
  whole mesh for every face it detects, so the container is indexed by a total function.
\<close>

record landmark =
  lm_x :: rat
  lm_y :: rat
  lm_z :: rat

record face_landmarks =
  landmark :: "nat \<Rightarrow> landmark"

record results =
  multi_face_landmarks :: "face_landmarks list option"

definition eye_aspect_ratio :: "(nat \<Rightarrow> landmark) \<Rightarrow> nat list \<Rightarrow> rat" where
  "eye_aspect_ratio landmarks eye_indices =
     (let top = landmarks (eye_indices ! 0); bottom = landmarks (eye_indices ! 1)
      in \<bar>lm_y top - lm_y bottom\<bar>)"

text \<open>Lines 94 to 110 of \<open>process_frame\<close>: blink detection.\<close>

definition blink_detection :: "clock \<Rightarrow> rat \<Rightarrow> rat \<Rightarrow> encoder \<Rightarrow> encoder" where
  "blink_detection clk left_ear right_ear s =
     (if left_ear < blink_threshold s \<and> right_ear < blink_threshold s then
        (if blink_start_time s = 0 then
           (let (t, s1) = time_time clk s in s1\<lparr>blink_start_time := t\<rparr>)
         else s)
      else
        (if blink_start_time s > 0 then
           (let (t, s1) = time_time clk s;
                blink_duration = t - blink_start_time s1;
                s2 = s1\<lparr>blink_start_time := 0\<rparr>;
                s3 = (if blink_duration < 0.4 then s2\<lparr>morse_code := morse_code s2 @ str ''.''\<rparr>
                      else if blink_duration < 0.8 then s2\<lparr>morse_code := morse_code s2 @ str ''-''\<rparr>
                      else s2);
                (t', s4) = time_time clk s3
            in s4\<lparr>last_blink_end := t'\<rparr>)
         else s))"

text \<open>Lines 112 to 122: space detection. Every condition reads the clock anew.\<close>

definition space_detection :: "clock \<Rightarrow> encoder \<Rightarrow> encoder" where
  "space_detection clk s =
     (let (t, s1) = time_time clk s in
      if t - last_blink_end s1 > 1.0 then
        (if \<not> endswith (morse_code s1) (str ''   '') then
           (let s2 = s1\<lparr>morse_code := morse_code s1 @ str ''   ''\<rparr>;
                (t', s3) = time_time clk s2
            in s3\<lparr>last_blink_end := t'\<rparr>)
         else s1)
      else
        (let (u, s2) = time_time clk s1 in
         if u - last_blink_end s2 > 0.8 then
           (if \<not> endswith (morse_code s2) (str '' '') then
              (let s3 = s2\<lparr>morse_code := morse_code s2 @ str '' ''\<rparr>;
                   (u', s4) = time_time clk s3
               in s4\<lparr>last_blink_end := u'\<rparr>)
            else s2)
         else s2))"

text \<open>The body of the loop over the detected faces (drawing and printing left out).\<close>

definition process_face :: "clock \<Rightarrow> encoder \<Rightarrow> face_landmarks \<Rightarrow> encoder" where
  "process_face clk s face =
     (let left_eye = [159, 145];
          right_eye = [386, 374];
          left_ear = eye_aspect_ratio (landmark face) left_eye;
          right_ear = eye_aspect_ratio (landmark face) right_eye
      in space_detection clk (blink_detection clk left_ear right_ear s))"

text \<open>
  \<open>process_frame\<close>: nothing happens to the encoder unless \<open>multi_face_landmarks\<close> is truthy
  (neither \<open>None\<close> nor empty); the frame itself is only drawn on.
\<close>

definition process_frame :: "clock \<Rightarrow> encoder \<Rightarrow> results \<Rightarrow> encoder" where
  "process_frame clk s res =
     (case multi_face_landmarks res of
        None \<Rightarrow> s
      | Some faces \<Rightarrow> if faces = [] then s else foldl (process_face clk) s faces)"

text \<open>The condition of line 94: both eyes are below the threshold.\<close>

definition is_closed :: "encoder \<Rightarrow> face_landmarks \<Rightarrow> bool" where
  "is_closed s face =
     (eye_aspect_ratio (landmark face) [159, 145] < blink_threshold s
      \<and> eye_aspect_ratio (landmark face) [386, 374] < blink_threshold s)"

text \<open>The loop of \<open>run\<close>: \<open>process_frame\<close> once for every captured frame, in order.\<close>

definition run_loop :: "clock \<Rightarrow> encoder \<Rightarrow> results list \<Rightarrow> encoder" where
  "run_loop clk s frames = foldl (process_frame clk) s frames"

section \<open>Notions of the specification\<close>


text \<open>
  The lengths of the maximal runs of spaces of a string, and the spacing discipline of the
  buffer: every run of spaces, read from the end of the buffer, has length 1, 3 or 4.
\<close>

fun space_runs :: "nat \<Rightarrow> pystr \<Rightarrow> nat list" where
  "space_runs r [] = (if r = 0 then [] else [r])"
| "space_runs r (c # cs) =
     (if c = 32 then space_runs (Suc r) cs
      else (if r = 0 then [] else [r]) @ space_runs 0 cs)"

definition spacing_ok :: "pystr \<Rightarrow> bool" where
  "spacing_ok buf = list_all (\<lambda>r. r = 1 \<or> r = 3 \<or> r = 4) (space_runs 0 (rev buf))"

text \<open>\<open>sep.join(xs)\<close>.\<close>

fun join_with :: "pystr \<Rightarrow> pystr list \<Rightarrow> pystr" where
  "join_with sep [] = []"
| "join_with sep [x] = x"
| "join_with sep (x # y # ys) = x @ sep @ join_with sep (y # ys)"

text \<open>
  The letters of the code: the values that \<open>letter\<close> takes in the inner loop of
  \<open>decode_morse_code\<close>, in order (each word of the stripped buffer split with
  \<open>word.split()\<close>).
\<close>

definition letter_tokens :: "pystr \<Rightarrow> pystr list" where
  "letter_tokens morse = concat (map split_ws (split_from (str ''   '') [] (strip morse)))"

text \<open>
  The letter tokens as the specification words them: the buffer split into words on the
  word-space marker, each word split into letters on single-space boundaries.
\<close>

definition spec_letter_tokens :: "pystr \<Rightarrow> pystr list" where
  "spec_letter_tokens morse =
     concat (map (\<lambda>word. split_from (str '' '') [] word) (split_from (str ''   '') [] morse))"

text \<open>
  Decoding as the specification words it: the letters of a word joined with no separator,
  the words joined with a single space, the result trimmed.
\<close>

definition spec_join_decode :: "pystr \<Rightarrow> pystr" where
  "spec_join_decode morse =
     strip (join_with (str '' '')
       (map (\<lambda>word. concat (map (\<lambda>letter. dict_get morse_code_map letter placeholder)
                                 (split_ws word)))
            (split_from (str ''   '') [] (strip morse))))"

text \<open>
  The reference encoding of the specification: the characters the table covers, the Morse
  string of a character (the key of the table that maps to it), and a text encoded with its
  letters joined by single spaces and its words by triple spaces.
\<close>

definition covered :: "nat \<Rightarrow> bool" where
  "covered c = (c \<in> set (str ''ABCDEFGHIJKLMNOPQRSTUVWXYZ0123456789.!,''))"

definition canonical :: "nat \<Rightarrow> pystr" where
  "canonical c =
     (case map_of (map (\<lambda>(k, v). (v, k)) morse_code_map) [c] of Some k \<Rightarrow> k | None \<Rightarrow> [])"

definition encode_reference :: "pystr \<Rightarrow> pystr" where
  "encode_reference text =
     join_with (str ''   '')
       (map (\<lambda>word. join_with (str '' '') (map canonical word))
            (split_from (str '' '') [] text))"

section \<open>Sample inputs\<close>

text \<open>
  A clock that returns the listed readings in order (and the last one from then on), a face
  whose two eyelid distances are both \<open>e\<close>, and the result of a frame with one face.
\<close>

definition list_clock :: "rat list \<Rightarrow> clock" where
  "list_clock ts n = (if n < length ts then ts ! n else last ts)"

definition face_with :: "rat \<Rightarrow> face_landmarks" where
  "face_with e =
     \<lparr>landmark = (\<lambda>n. \<lparr>lm_x = 0, lm_y = (if n = 159 \<or> n = 386 then e else 0), lm_z = 0\<rparr>)\<rparr>"

definition one_face :: "face_landmarks \<Rightarrow> results" where
  "one_face f = \<lparr>multi_face_landmarks = Some [f]\<rparr>"

section \<open>Facts about the encoder\<close>

lemmas run_defs = run_loop_def process_frame_def one_face_def process_face_def
  blink_detection_def space_detection_def time_time_def init_def list_clock_def face_with_def
  eye_aspect_ratio_def Let_def endswith_def suffix_to_prefix str_def is_closed_def

lemma blink_detection_appends:
  "\<exists>suf. morse_code (blink_detection clk l r s) = morse_code s @ suf \<and> set suf \<subseteq> {46, 45}"
  by (simp add: blink_detection_def time_time_def Let_def str_def)

lemma space_detection_appends:
  "\<exists>suf. morse_code (space_detection clk s) = morse_code s @ suf \<and> set suf \<subseteq> {32}"
  by (simp add: space_detection_def time_time_def Let_def str_def)

lemma process_face_appends:
  "\<exists>suf. morse_code (process_face clk s face) = morse_code s @ suf \<and> set suf \<subseteq> {46, 45, 32}"
proof -
  let ?b = "blink_detection clk (eye_aspect_ratio (landmark face) [159, 145])
              (eye_aspect_ratio (landmark face) [386, 374]) s"
  obtain u where u: "morse_code ?b = morse_code s @ u" "set u \<subseteq> {46, 45}"
    using blink_detection_appends by blast
  obtain v where v: "morse_code (space_detection clk ?b) = morse_code ?b @ v" "set v \<subseteq> {32}"
    using space_detection_appends by blast
  have "morse_code (process_face clk s face) = morse_code s @ (u @ v)"
    using u v by (simp add: process_face_def Let_def)
  moreover have "set (u @ v) \<subseteq> {46, 45, 32}" using u v by auto
  ultimately show ?thesis by blast
qed

lemma foldl_process_face_appends:
  "\<exists>suf. morse_code (foldl (process_face clk) s faces) = morse_code s @ suf
         \<and> set suf \<subseteq> {46, 45, 32}"
proof (induction faces arbitrary: s)
  case Nil
  show ?case by simp
next
  case (Cons f fs)
  obtain u where u: "morse_code (process_face clk s f) = morse_code s @ u" "set u \<subseteq> {46, 45, 32}"
    using process_face_appends by blast
  obtain v where v: "morse_code (foldl (process_face clk) (process_face clk s f) fs)
                       = morse_code (process_face clk s f) @ v" "set v \<subseteq> {46, 45, 32}"
    using Cons.IH by blast
  have "morse_code (foldl (process_face clk) s (f # fs)) = morse_code s @ (u @ v)"
    using u v by simp
  moreover have "set (u @ v) \<subseteq> {46, 45, 32}" using u v by auto
  ultimately show ?case by blast
qed

lemma endswith_letter_space: "endswith b (str '' '') = (b \<noteq> [] \<and> last b = 32)"
proof
  assume "endswith b (str '' '')"
  then show "b \<noteq> [] \<and> last b = 32" by (auto simp: endswith_def str_def suffix_def)
next
  assume "b \<noteq> [] \<and> last b = 32"
  then have "b = butlast b @ [32]" by (metis append_butlast_last_id)
  then have "\<exists>zs. b = zs @ [32]" by blast
  then show "endswith b (str '' '')" by (simp add: endswith_def str_def suffix_def)
qed

lemma endswith_word_space: "endswith b (str ''   '') = (\<exists>b'. b = b' @ [32, 32, 32])"
  by (auto simp: endswith_def str_def suffix_def)

lemma space_detection_rule:
  "(morse_code (space_detection clk s), last_blink_end (space_detection clk s)) =
     (if clk (clock_reads s) - last_blink_end s > 1.0 then
        (if endswith (morse_code s) (str ''   '') then (morse_code s, last_blink_end s)
         else (morse_code s @ str ''   '', clk (Suc (clock_reads s))))
      else if clk (Suc (clock_reads s)) - last_blink_end s > 0.8 then
        (if endswith (morse_code s) (str '' '') then (morse_code s, last_blink_end s)
         else (morse_code s @ str '' '', clk (Suc (Suc (clock_reads s)))))
      else (morse_code s, last_blink_end s))"
  by (simp add: space_detection_def time_time_def Let_def)

lemma process_face_open_idle:
  assumes "\<not> is_closed s face" and "\<not> blink_start_time s > 0"
  shows "process_face clk s face = space_detection clk s"
  using assms by (auto simp: process_face_def is_closed_def blink_detection_def Let_def)

lemma process_face_closed_running:
  assumes "is_closed s face" and "blink_start_time s \<noteq> 0"
  shows "process_face clk s face = space_detection clk s"
  using assms by (auto simp: process_face_def is_closed_def blink_detection_def Let_def)


lemma process_frame_none: "process_frame clk s \<lparr>multi_face_landmarks = None\<rparr> = s"
  by (simp add: process_frame_def)

lemma process_frame_no_faces: "process_frame clk s \<lparr>multi_face_landmarks = Some []\<rparr> = s"
  by (simp add: process_frame_def)

lemma run_loop_without_face:
  "run_loop clk s (replicate k \<lparr>multi_face_landmarks = None\<rparr> @ frames) = run_loop clk s frames"
  by (induction k) (simp_all add: run_loop_def process_frame_none)













subsection \<open>The spacing discipline\<close>

lemma spacing_ok_symbol:
  assumes "spacing_ok b" and "c \<noteq> 32"
  shows "spacing_ok (b @ [c])"
  using assms by (simp add: spacing_ok_def)

lemma spacing_ok_letter:
  assumes "spacing_ok b" and "\<not> endswith b (str '' '')"
  shows "spacing_ok (b @ str '' '')"
proof (cases "rev b")
  case Nil
  then show ?thesis by (simp add: spacing_ok_def str_def)
next
  case (Cons c cs)
  then have b: "b = rev cs @ [c]" by (metis rev_rev_ident rev.simps(2))
  with assms(2) have "c \<noteq> 32" by (simp add: endswith_letter_space)
  with assms(1) show ?thesis by (simp add: spacing_ok_def str_def b)
qed

lemma spacing_ok_word:
  assumes "spacing_ok b" and "\<not> endswith b (str ''   '')"
  shows "spacing_ok (b @ str ''   '')"
proof -
  have n3: "\<not> (\<exists>cs. rev b = 32 # 32 # 32 # cs)"
  proof
    assume "\<exists>cs. rev b = 32 # 32 # 32 # cs"
    then obtain cs where "rev b = 32 # 32 # 32 # cs" by blast
    then have "rev (rev b) = rev (32 # 32 # 32 # cs)" by (rule arg_cong)
    then have "b = rev cs @ [32, 32, 32]" by simp
    with assms(2) show False by (simp add: endswith_word_space)
  qed
  show ?thesis
  proof (cases "rev b")
    case Nil
    then show ?thesis by (simp add: spacing_ok_def str_def)
  next
    case c1: (Cons c1 r1)
    show ?thesis
    proof (cases "c1 = 32")
      case False
      with assms(1) c1 show ?thesis by (simp add: spacing_ok_def str_def)
    next
      case True
      show ?thesis
      proof (cases r1)
        case Nil
        with True c1 show ?thesis by (simp add: spacing_ok_def str_def)
      next
        case c2: (Cons c2 r2)
        show ?thesis
        proof (cases "c2 = 32")
          case False
          with assms(1) c1 c2 True show ?thesis by (simp add: spacing_ok_def str_def)
        next
          case t2: True
          show ?thesis
          proof (cases r2)
            case Nil
            with assms(1) c1 c2 True t2 show ?thesis by (simp add: spacing_ok_def)
          next
            case c3: (Cons c3 r3)
            with n3 c1 c2 True t2 have "c3 \<noteq> 32" by auto
            with assms(1) c1 c2 c3 True t2 show ?thesis by (simp add: spacing_ok_def)
          qed
        qed
      qed
    qed
  qed
qed

lemma spacing_ok_blink_detection:
  "spacing_ok (morse_code s) \<Longrightarrow> spacing_ok (morse_code (blink_detection clk l r s))"
  by (simp add: blink_detection_def time_time_def Let_def str_def spacing_ok_symbol)

lemma spacing_ok_space_detection:
  "spacing_ok (morse_code s) \<Longrightarrow> spacing_ok (morse_code (space_detection clk s))"
  by (simp add: space_detection_def time_time_def Let_def spacing_ok_letter spacing_ok_word)

lemma spacing_ok_process_face:
  "spacing_ok (morse_code s) \<Longrightarrow> spacing_ok (morse_code (process_face clk s face))"
  by (simp add: process_face_def Let_def spacing_ok_blink_detection spacing_ok_space_detection)

lemma spacing_ok_foldl:
  "spacing_ok (morse_code s) \<Longrightarrow> spacing_ok (morse_code (foldl (process_face clk) s faces))"
  by (induction faces arbitrary: s) (simp_all add: spacing_ok_process_face)

section \<open>Claims about the encoder\<close>



text \<open>
  C2. An open sample with no closure pending measures the gap since \<open>last_blink_end\<close>.
  If the gap is above 1.0 the word-space marker is appended and the gap timer is reset,
  unless the buffer already ends with the marker; otherwise, if the gap (read again from the
  clock) is above 0.8, a single letter-space is appended and the timer is reset, unless the
  buffer already ends with a space; otherwise buffer and timer stay as they are. The
  word-space check comes first, so a gap above 1.0 is never classified as a letter-space.
\<close>

theorem open_gap_spacing:
  assumes "\<not> is_closed s face" and "\<not> blink_start_time s > 0"
  shows "(morse_code (process_face clk s face), last_blink_end (process_face clk s face)) =
     (if clk (clock_reads s) - last_blink_end s > 1.0 then
        (if endswith (morse_code s) (str ''   '') then (morse_code s, last_blink_end s)
         else (morse_code s @ str ''   '', clk (Suc (clock_reads s))))
      else if clk (Suc (clock_reads s)) - last_blink_end s > 0.8 then
        (if endswith (morse_code s) (str '' '') then (morse_code s, last_blink_end s)
         else (morse_code s @ str '' '', clk (Suc (Suc (clock_reads s)))))
      else (morse_code s, last_blink_end s))"
  unfolding process_face_open_idle [OF assms] by (rule space_detection_rule)

theorem open_gap_spacing_witness:
  "\<not> is_closed \<lparr>blink_threshold = 0.03, blink_start_time = 0, last_blink_end = 100,
       morse_code = str ''.'', clock_reads = 1\<rparr> (face_with 0.1)
   \<and> \<not> blink_start_time \<lparr>blink_threshold = 0.03, blink_start_time = 0, last_blink_end = 100,
       morse_code = str ''.'', clock_reads = 1\<rparr> > 0
   \<and> morse_code (process_face (list_clock [100, 100.9, 100.9, 100.95])
       \<lparr>blink_threshold = 0.03, blink_start_time = 0, last_blink_end = 100,
        morse_code = str ''.'', clock_reads = 1\<rparr> (face_with 0.1)) = str ''. ''
   \<and> last_blink_end (process_face (list_clock [100, 100.9, 100.9, 100.95])
       \<lparr>blink_threshold = 0.03, blink_start_time = 0, last_blink_end = 100,
        morse_code = str ''.'', clock_reads = 1\<rparr> (face_with 0.1)) = 100.95"
  using open_gap_spacing [of "\<lparr>blink_threshold = 0.03, blink_start_time = 0,
       last_blink_end = 100, morse_code = str ''.'', clock_reads = 1\<rparr>" "face_with 0.1"
       "list_clock [100, 100.9, 100.9, 100.95]"]
  by (simp add: run_defs)

text \<open>
  C3, as the specification words it, fails: a closed sample does go through the space
  detection. Here the eyes close 0.1 s after the start of the session and are still closed
  1.2 s after it; the second closed sample appends a word-space.
\<close>

theorem closed_sample_appends_word_space:
  "is_closed (process_frame (list_clock [100, 100.1, 100.1, 100.1, 101.2, 101.2])
        (init (list_clock [100, 100.1, 100.1, 100.1, 101.2, 101.2]) 0.03)
        (one_face (face_with 0))) (face_with 0)
   \<and> blink_start_time (process_frame (list_clock [100, 100.1, 100.1, 100.1, 101.2, 101.2])
        (init (list_clock [100, 100.1, 100.1, 100.1, 101.2, 101.2]) 0.03)
        (one_face (face_with 0))) = 100.1
   \<and> morse_code (process_frame (list_clock [100, 100.1, 100.1, 100.1, 101.2, 101.2])
        (init (list_clock [100, 100.1, 100.1, 100.1, 101.2, 101.2]) 0.03)
        (one_face (face_with 0))) = []
   \<and> morse_code (process_frame (list_clock [100, 100.1, 100.1, 100.1, 101.2, 101.2])
        (process_frame (list_clock [100, 100.1, 100.1, 100.1, 101.2, 101.2])
          (init (list_clock [100, 100.1, 100.1, 100.1, 101.2, 101.2]) 0.03)
          (one_face (face_with 0)))
        (one_face (face_with 0))) = str ''   ''"
  by (simp add: run_defs)

text \<open>
  C3, amended. A closed sample never appends a dot or a dash: what it appends are spaces
  only. Space detection is not suspended during a closure: a closed sample of a closure in
  progress is classified by the gap since \<open>last_blink_end\<close> exactly as an open sample with
  no closure pending is.
\<close>

theorem closed_sample_spacing:
  assumes "is_closed s face"
  shows "(\<exists>sp. set sp \<subseteq> {32} \<and> morse_code (process_face clk s face) = morse_code s @ sp)
       \<and> (blink_start_time s \<noteq> 0 \<longrightarrow>
           morse_code (process_face clk s face) =
             (if clk (clock_reads s) - last_blink_end s > 1.0 then
                (if endswith (morse_code s) (str ''   '') then morse_code s
                 else morse_code s @ str ''   '')
              else if clk (Suc (clock_reads s)) - last_blink_end s > 0.8 then
                (if endswith (morse_code s) (str '' '') then morse_code s
                 else morse_code s @ str '' '')
              else morse_code s))"
proof -
  let ?b = "blink_detection clk (eye_aspect_ratio (landmark face) [159, 145])
              (eye_aspect_ratio (landmark face) [386, 374]) s"
  have "morse_code ?b = morse_code s"
    using assms by (simp add: blink_detection_def is_closed_def time_time_def Let_def)
  moreover obtain v where "morse_code (space_detection clk ?b) = morse_code ?b @ v" "set v \<subseteq> {32}"
    using space_detection_appends by blast
  ultimately have 1: "\<exists>sp. set sp \<subseteq> {32} \<and> morse_code (process_face clk s face) = morse_code s @ sp"
    by (auto simp: process_face_def Let_def)
  have 2: "morse_code (process_face clk s face) =
             (if clk (clock_reads s) - last_blink_end s > 1.0 then
                (if endswith (morse_code s) (str ''   '') then morse_code s
                 else morse_code s @ str ''   '')
              else if clk (Suc (clock_reads s)) - last_blink_end s > 0.8 then
                (if endswith (morse_code s) (str '' '') then morse_code s
                 else morse_code s @ str '' '')
              else morse_code s)" if "blink_start_time s \<noteq> 0"
  proof -
    have "morse_code (process_face clk s face)
            = fst (morse_code (space_detection clk s), last_blink_end (space_detection clk s))"
      using process_face_closed_running [OF assms that] by simp
    then show ?thesis unfolding space_detection_rule by simp
  qed
  from 1 2 show ?thesis by blast
qed

theorem closed_sample_spacing_witness:
  "is_closed \<lparr>blink_threshold = 0.03, blink_start_time = 100.1, last_blink_end = 100,
       morse_code = str ''.'', clock_reads = 4\<rparr> (face_with 0)
   \<and> morse_code (process_face (list_clock [100, 100.1, 100.1, 100.1, 100.9, 100.9, 100.9])
       \<lparr>blink_threshold = 0.03, blink_start_time = 100.1, last_blink_end = 100,
        morse_code = str ''.'', clock_reads = 4\<rparr> (face_with 0)) = str ''. ''"
  using closed_sample_spacing [of "\<lparr>blink_threshold = 0.03, blink_start_time = 100.1,
       last_blink_end = 100, morse_code = str ''.'', clock_reads = 4\<rparr>" "face_with 0"
       "list_clock [100, 100.1, 100.1, 100.1, 100.9, 100.9, 100.9]"]
  by (simp add: run_defs)

text \<open>
  C4, as the specification words it, fails: a letter-space can be followed at once by a
  word-space for the same gap. After a dot, an open sample 0.9 s later appends a
  letter-space; a further open sample 1.1 s after that appends a word-space behind it, and
  the buffer holds the dot and four spaces.
\<close>

theorem letter_space_then_word_space:
  "morse_code (run_loop
       (list_clock [100, 100.1, 100.1, 100.1, 100.3, 100.3, 100.3, 100.3, 101.2, 101.2,
                    101.2, 102.3, 102.3])
       (init (list_clock [100, 100.1, 100.1, 100.1, 100.3, 100.3, 100.3, 100.3, 101.2, 101.2,
                          101.2, 102.3, 102.3]) 0.03)
       [one_face (face_with 0), one_face (face_with 0.1), one_face (face_with 0.1)])
     = str ''. ''
   \<and> morse_code (run_loop
       (list_clock [100, 100.1, 100.1, 100.1, 100.3, 100.3, 100.3, 100.3, 101.2, 101.2,
                    101.2, 102.3, 102.3])
       (init (list_clock [100, 100.1, 100.1, 100.1, 100.3, 100.3, 100.3, 100.3, 101.2, 101.2,
                          101.2, 102.3, 102.3]) 0.03)
       [one_face (face_with 0), one_face (face_with 0.1), one_face (face_with 0.1),
        one_face (face_with 0.1)])
     = str ''.    ''"
  by (simp add: run_defs)

text \<open>
  C4, amended. Every step of the encoder preserves the spacing discipline of the buffer:
  a letter-space is never appended behind a space and a word-space never behind three
  spaces, so every run of spaces in the buffer has length 1, 3 or 4 (a word-space may
  follow a single letter-space). The empty buffer of a new session satisfies it. Once the
  buffer ends with the word-space marker, an open sample with no closure pending appends
  nothing, whatever the gap.
\<close>

theorem spacing_invariant:
  "spacing_ok (morse_code (init clk threshold))
   \<and> (spacing_ok (morse_code s) \<longrightarrow> spacing_ok (morse_code (process_frame clk s res)))
   \<and> (endswith (morse_code s) (str ''   '') \<and> \<not> is_closed s face \<and> \<not> blink_start_time s > 0
        \<longrightarrow> morse_code (process_face clk s face) = morse_code s)"
proof -
  have 1: "spacing_ok (morse_code (init clk threshold))"
    by (simp add: init_def spacing_ok_def)
  have 2: "spacing_ok (morse_code (process_frame clk s res))" if "spacing_ok (morse_code s)"
    using that by (cases "multi_face_landmarks res") (simp_all add: process_frame_def spacing_ok_foldl)
  have 3: "morse_code (process_face clk s face) = morse_code s"
    if h: "endswith (morse_code s) (str ''   '') \<and> \<not> is_closed s face \<and> \<not> blink_start_time s > 0"
  proof -
    from h obtain b' where "morse_code s = b' @ [32, 32, 32]"
      by (auto simp: endswith_word_space)
    then have e: "endswith (morse_code s) (str '' '')" by (simp add: endswith_letter_space)
    have "morse_code (process_face clk s face)
            = fst (morse_code (space_detection clk s), last_blink_end (space_detection clk s))"
      using process_face_open_idle [of s face clk] h by simp
    then show ?thesis unfolding space_detection_rule using h e by simp
  qed
  from 1 2 3 show ?thesis by blast
qed

theorem spacing_invariant_witness:
  "spacing_ok (morse_code (init (list_clock [100, 101.2, 101.2]) 0.03))
   \<and> spacing_ok (str ''.    -'') \<and> \<not> spacing_ok (str ''.  -'') \<and> \<not> spacing_ok (str ''.     -'')
   \<and> spacing_ok (morse_code (process_frame (list_clock [100, 101.2, 101.2])
        (init (list_clock [100, 101.2, 101.2]) 0.03) (one_face (face_with 0.1))))
   \<and> morse_code (process_frame (list_clock [100, 101.2, 101.2])
        (init (list_clock [100, 101.2, 101.2]) 0.03) (one_face (face_with 0.1))) = str ''   ''
   \<and> endswith (str ''.   '') (str ''   '')
   \<and> \<not> is_closed \<lparr>blink_threshold = 0.03, blink_start_time = 0, last_blink_end = 100,
        morse_code = str ''.   '', clock_reads = 1\<rparr> (face_with 0.1)
   \<and> morse_code (process_face (list_clock [100, 105, 105])
        \<lparr>blink_threshold = 0.03, blink_start_time = 0, last_blink_end = 100,
         morse_code = str ''.   '', clock_reads = 1\<rparr> (face_with 0.1)) = str ''.   ''"
  using spacing_invariant [of "list_clock [100, 101.2, 101.2]" "0.03"
       "init (list_clock [100, 101.2, 101.2]) 0.03" "one_face (face_with 0.1)"]
    spacing_invariant [of "list_clock [100, 105, 105]" "0.03"
       "\<lparr>blink_threshold = 0.03, blink_start_time = 0, last_blink_end = 100,
         morse_code = str ''.   '', clock_reads = 1\<rparr>" "one_face (face_with 0.1)" "face_with 0.1"]
  by (simp add: run_defs spacing_ok_def)

text \<open>
  C9. The buffer is append-only over a fixed alphabet: after \<open>process_frame\<close> the previous
  buffer is a prefix of the new one, and every appended character is a dot, a dash or a
  space.
\<close>

theorem buffer_append_only:
  "\<exists>suf. morse_code (process_frame clk s res) = morse_code s @ suf
         \<and> set suf \<subseteq> set (str ''.- '')"
proof -
  have "set (str ''.- '') = {46, 45, 32}" by (simp add: str_def)
  then show ?thesis
    using foldl_process_face_appends [of clk s]
    by (cases "multi_face_landmarks res") (simp_all add: process_frame_def)
qed

theorem buffer_append_only_witness:
  "morse_code (process_frame (list_clock [100, 100.1, 100.1, 100.1, 100.3])
       \<lparr>blink_threshold = 0.03, blink_start_time = 100.1, last_blink_end = 100,
        morse_code = str ''-'', clock_reads = 4\<rparr> (one_face (face_with 0.1)))
     = morse_code \<lparr>blink_threshold = 0.03, blink_start_time = 100.1, last_blink_end = 100,
        morse_code = str ''-'', clock_reads = 4\<rparr> @ str ''.''
   \<and> set (str ''.'') \<subseteq> set (str ''.- '')"
  using buffer_append_only [of "list_clock [100, 100.1, 100.1, 100.1, 100.3]"
       "\<lparr>blink_threshold = 0.03, blink_start_time = 100.1, last_blink_end = 100,
        morse_code = str ''-'', clock_reads = 4\<rparr>" "one_face (face_with 0.1)"]
  by (simp add: run_defs)

text \<open>
  C10, as stated, fails: a frame without face landmarks does not reach the space detection.
  Here the clock stands 5 s after the start of the session, and the frame without a face
  leaves the encoder as it was, the buffer empty.
\<close>

theorem no_face_appends_nothing:
  "list_clock [100, 105] 1 - last_blink_end (init (list_clock [100, 105]) 0.03) > 1.0
   \<and> process_frame (list_clock [100, 105]) (init (list_clock [100, 105]) 0.03)
        \<lparr>multi_face_landmarks = None\<rparr> = init (list_clock [100, 105]) 0.03
   \<and> morse_code (process_frame (list_clock [100, 105]) (init (list_clock [100, 105]) 0.03)
        \<lparr>multi_face_landmarks = None\<rparr>) = []"
  by (simp add: run_defs)

text \<open>
  C10, amended. A frame without face landmarks (none, or an empty list) leaves the encoder
  unchanged: it appends nothing and reads no clock. The gap still grows with the clock, as
  \<open>last_blink_end\<close> stays where it was; and no closure is needed for a space: after any
  number of frames without a face, the first sample with open eyes whose clock reading is
  more than 1.0 s after the start of the session appends the word-space marker to the empty
  buffer.
\<close>

theorem space_without_closure:
  "process_frame clk s \<lparr>multi_face_landmarks = None\<rparr> = s
   \<and> process_frame clk s \<lparr>multi_face_landmarks = Some []\<rparr> = s
   \<and> (clk 1 - clk 0 > 1.0 \<and> \<not> is_closed (init clk threshold) face \<longrightarrow>
        morse_code (run_loop clk (init clk threshold)
           (replicate k \<lparr>multi_face_landmarks = None\<rparr> @ [one_face face])) = str ''   '')"
proof -
  have "morse_code (run_loop clk (init clk threshold) [one_face face]) = str ''   ''"
    if h: "clk 1 - clk 0 > 1.0 \<and> \<not> is_closed (init clk threshold) face"
  proof -
    have i: "\<not> blink_start_time (init clk threshold) > 0" by (simp add: init_def)
    have "morse_code (process_face clk (init clk threshold) face)
            = fst (morse_code (space_detection clk (init clk threshold)),
                   last_blink_end (space_detection clk (init clk threshold)))"
      using process_face_open_idle [of "init clk threshold" face clk] h i by simp
    also have "\<dots> = str ''   ''"
      unfolding space_detection_rule using h
      by (simp add: init_def endswith_def str_def suffix_to_prefix)
    finally show ?thesis by (simp add: run_loop_def process_frame_def one_face_def)
  qed
  then show ?thesis
    by (simp add: process_frame_none process_frame_no_faces run_loop_without_face)
qed

theorem space_without_closure_witness:
  "list_clock [100, 101.5, 101.5] 1 - list_clock [100, 101.5, 101.5] 0 > 1.0
   \<and> \<not> is_closed (init (list_clock [100, 101.5, 101.5]) 0.03) (face_with 0.1)
   \<and> morse_code (run_loop (list_clock [100, 101.5, 101.5])
        (init (list_clock [100, 101.5, 101.5]) 0.03)
        (replicate 2 \<lparr>multi_face_landmarks = None\<rparr> @ [one_face (face_with 0.1)])) = str ''   ''"
  using space_without_closure [of "list_clock [100, 101.5, 101.5]"
       "init (list_clock [100, 101.5, 101.5]) 0.03" "0.03" "face_with 0.1" 2]
  by (simp add: list_clock_def init_def is_closed_def face_with_def eye_aspect_ratio_def)

section \<open>Facts about the decoder\<close>

lemmas decode_defs = decode_morse_code_def split_sep_def strip_def decode_words_def
  decode_letters_def split_ws_def dict_get_def morse_code_map_def placeholder_def lozenge_def
  isspace_def str_def spec_join_decode_def letter_tokens_def

lemma decode_letters_concat:
  "decode_letters d ls = d @ concat (map (\<lambda>l. dict_get morse_code_map l placeholder) ls)"
  unfolding decode_letters_def by (induction ls arbitrary: d) simp_all

lemma decode_words_concat:
  "decode_words d ws =
     d @ concat (map (\<lambda>w. concat (map (\<lambda>l. dict_get morse_code_map l placeholder) (split_ws w))
                          @ [32]) ws)"
  unfolding decode_words_def
  by (induction ws arbitrary: d) (simp_all add: decode_letters_concat str_def)

lemma concat_trailing_join:
  "ws \<noteq> [] \<Longrightarrow> concat (map (\<lambda>w. f w @ [32]) ws) = join_with [32] (map f ws) @ [32]"
  by (induction ws rule: induct_list012) simp_all

lemma split_from_nonempty: "split_from sep cur s \<noteq> []"
  by (induction sep cur s rule: split_from.induct) simp_all

lemma isspace_32: "isspace 32"
  by (simp add: isspace_def)

lemma strip_snoc_space:
  assumes "isspace c"
  shows "strip (x @ [c]) = strip x"
proof (cases "\<forall>y\<in>set x. isspace y")
  case True
  then have e1: "dropWhile isspace x = []" by simp
  have e2: "dropWhile isspace (x @ [c]) = []" using True assms by simp
  show ?thesis unfolding strip_def e1 e2 ..
next
  case False
  then obtain y where "y \<in> set x" and "\<not> isspace y" by blast
  then have "dropWhile isspace (x @ [c]) = dropWhile isspace x @ [c]"
    by (rule dropWhile_append1)
  with assms show ?thesis by (simp add: strip_def)
qed

lemma strip_ends: "strip s = [] \<or> (\<not> isspace (hd (strip s)) \<and> \<not> isspace (last (strip s)))"
proof (cases "strip s = []")
  case True
  then show ?thesis by simp
next
  case False
  let ?D = "dropWhile isspace s"
  let ?d = "dropWhile isspace (rev ?D)"
  have d: "?d \<noteq> []" using False by (simp add: strip_def)
  then have l: "\<not> isspace (hd ?d)" by (rule hd_dropWhile)
  have "last (strip s) = hd ?d" using d by (simp add: strip_def last_rev)
  with l have 1: "\<not> isspace (last (strip s))" by simp
  have s: "?D \<noteq> []"
  proof
    assume "?D = []"
    then have "?d = []" by (simp only: rev.simps dropWhile.simps)
    with d show False ..
  qed
  then have h: "\<not> isspace (hd ?D)" by (rule hd_dropWhile)
  have "takeWhile isspace (rev ?D) @ ?d = rev ?D" by (rule takeWhile_dropWhile_id)
  then have "rev (takeWhile isspace (rev ?D) @ ?d) = rev (rev ?D)" by (rule arg_cong)
  then have "rev ?d @ rev (takeWhile isspace (rev ?D)) = ?D"
    by (simp only: rev_append rev_rev_ident)
  then have "hd ?D = hd (rev ?d @ rev (takeWhile isspace (rev ?D)))" by (rule arg_cong [OF sym])
  also have "\<dots> = hd (rev ?d)"
    using d by (simp only: hd_append2 rev_is_Nil_conv not_False_eq_True)
  finally have "hd ?D = hd (rev ?d)" .
  with h have "\<not> isspace (hd (strip s))" by (simp add: strip_def)
  with 1 show ?thesis by simp
qed

lemma decode_result:
  "decode_morse_code morse
     = Inr (strip (decode_words [] (split_from (str ''   '') [] (strip morse))))"
  by (simp add: decode_morse_code_def split_sep_def str_def)

lemma count_list_dropWhile:
  assumes "\<not> P c"
  shows "count_list (dropWhile P s) c = count_list s c"
proof -
  have "c \<notin> set (takeWhile P s)" using assms by (auto dest: set_takeWhileD)
  then have "count_list (takeWhile P s) c = 0" by (simp add: count_list_0_iff)
  moreover have "count_list (takeWhile P s) c + count_list (dropWhile P s) c = count_list s c"
    by (simp only: count_list_append [symmetric] takeWhile_dropWhile_id)
  ultimately show ?thesis by simp
qed

lemma count_list_strip: "\<not> isspace c \<Longrightarrow> count_list (strip s) c = count_list s c"
  by (simp add: strip_def count_list_dropWhile)

lemma count_list_concat:
  "count_list (concat (map f xs)) c = sum_list (map (\<lambda>x. count_list (f x) c) xs)"
  by (induction xs) simp_all

lemma sum_list_indicator:
  "sum_list (map (\<lambda>x. if P x then 1 else 0) xs) = length (filter P xs)"
  by (induction xs) simp_all

lemma table_values_plain: "list_all (\<lambda>(k, v). lozenge \<notin> set v) morse_code_map"
  by (simp add: morse_code_map_def str_def lozenge_def)

lemma count_lozenge_letter:
  "count_list (dict_get morse_code_map l placeholder) lozenge
     = (if map_of morse_code_map l = None then 1 else 0)"
proof (cases "map_of morse_code_map l")
  case None
  then show ?thesis by (simp add: dict_get_def placeholder_def lozenge_def)
next
  case (Some v)
  then have "(l, v) \<in> set morse_code_map" by (rule map_of_SomeD)
  with table_values_plain have "lozenge \<notin> set v" by (auto simp: list_all_iff)
  with Some show ?thesis by (simp add: dict_get_def count_list_0_iff)
qed

lemma count_lozenge_words:
  "count_list (decode_words [] ws) lozenge
     = length (filter (\<lambda>l. map_of morse_code_map l = None) (concat (map split_ws ws)))"
proof (induction ws)
  case Nil
  show ?case by (simp add: decode_words_concat)
next
  case (Cons w ws)
  have "count_list (concat (map (\<lambda>l. dict_get morse_code_map l placeholder) (split_ws w))) lozenge
          = length (filter (\<lambda>l. map_of morse_code_map l = None) (split_ws w))"
    by (simp only: count_list_concat count_lozenge_letter sum_list_indicator)
  with Cons show ?case
    by (simp add: decode_words_concat lozenge_def)
qed

subsection \<open>The letters of the code and the tokens of the specification\<close>

lemma split_ws_from_no_empty: "[] \<notin> set (split_ws_from cur x)"
  by (induction x arbitrary: cur) auto

lemma split_ws_from_space:
  "isspace c \<Longrightarrow> split_ws_from cur (x @ c # y) = split_ws_from cur x @ split_ws_from [] y"
  by (induction x arbitrary: cur) simp_all

lemma split_ws_from_trailing:
  "\<forall>c\<in>set t. isspace c \<Longrightarrow> split_ws_from cur (x @ t) = split_ws_from cur x"
proof (induction t arbitrary: x)
  case Nil
  show ?case by simp
next
  case (Cons c t)
  have "split_ws_from cur (x @ c # t) = split_ws_from cur ((x @ [c]) @ t)" by simp
  also have "\<dots> = split_ws_from cur (x @ [c])"
    by (rule Cons.IH) (use Cons.prems in simp)
  also have "\<dots> = split_ws_from cur x"
    using Cons.prems split_ws_from_space [of c cur x "[]"] by simp
  finally show ?case .
qed

lemma split_ws_dropWhile: "split_ws_from [] (dropWhile isspace m) = split_ws_from [] m"
  by (induction m) simp_all

lemma split_ws_strip: "split_ws (strip m) = split_ws m"
proof -
  let ?D = "dropWhile isspace m"
  have "takeWhile isspace (rev ?D) @ dropWhile isspace (rev ?D) = rev ?D"
    by (rule takeWhile_dropWhile_id)
  then have "rev (takeWhile isspace (rev ?D) @ dropWhile isspace (rev ?D)) = rev (rev ?D)"
    by (rule arg_cong)
  then have D: "strip m @ rev (takeWhile isspace (rev ?D)) = ?D"
    by (simp only: rev_append rev_rev_ident strip_def)
  have "\<forall>c\<in>set (rev (takeWhile isspace (rev ?D))). isspace c"
    by (auto dest: set_takeWhileD)
  then have "split_ws_from [] (strip m @ rev (takeWhile isspace (rev ?D)))
               = split_ws_from [] (strip m)"
    by (rule split_ws_from_trailing)
  then have "split_ws_from [] ?D = split_ws_from [] (strip m)" by (simp only: D)
  then show ?thesis by (simp add: split_ws_def split_ws_dropWhile)
qed

lemma split_ws_words:
  "sep = [32, 32, 32] \<Longrightarrow> concat (map split_ws (split_from sep cur x)) = split_ws (cur @ x)"
proof (induction sep cur x rule: split_from.induct)
  case (1 sep cur)
  show ?case by simp
next
  case (2 sep cur c cs)
  show ?case
  proof (cases "prefix sep (c # cs)")
    case True
    then obtain r where r: "c # cs = sep @ r" by (auto simp: prefix_def)
    with 2(3) have cs: "c = 32" "cs = 32 # 32 # r" by simp_all
    then have d: "drop (length sep - 1) cs = r" using 2(3) by simp
    have sf: "split_from sep cur (c # cs) = cur # split_from sep [] r"
      using True d by simp
    have ih: "concat (map split_ws (split_from sep [] r)) = split_ws r"
      using 2(1) [OF True] 2(3) d by simp
    have sw: "split_ws (cur @ 32 # 32 # 32 # r) = split_ws cur @ split_ws r"
      using split_ws_from_space [of 32 "[]" cur "32 # 32 # r"]
      by (simp add: split_ws_def isspace_32)
    have "concat (map split_ws (split_from sep cur (c # cs))) = split_ws cur @ split_ws r"
      unfolding sf using ih by simp
    also have "\<dots> = split_ws (cur @ c # cs)"
      unfolding cs by (rule sw [symmetric])
    finally show ?thesis .
  next
    case False
    then have sf: "split_from sep cur (c # cs) = split_from sep (cur @ [c]) cs" by simp
    have "concat (map split_ws (split_from sep (cur @ [c]) cs)) = split_ws ((cur @ [c]) @ cs)"
      by (rule 2(2) [OF False 2(3)])
    then show ?thesis unfolding sf by simp
  qed
qed

lemma split_from_pieces: "w \<in> set (split_from sep cur x) \<Longrightarrow> set w \<subseteq> set cur \<union> set x"
proof (induction sep cur x rule: split_from.induct)
  case (1 sep cur)
  then show ?case by simp
next
  case (2 sep cur c cs)
  show ?case
  proof (cases "prefix sep (c # cs)")
    case True
    with 2(3) have "w = cur \<or> w \<in> set (split_from sep [] (drop (length sep - 1) cs))" by simp
    then show ?thesis
    proof
      assume "w = cur"
      then show ?thesis by auto
    next
      assume "w \<in> set (split_from sep [] (drop (length sep - 1) cs))"
      then have "set w \<subseteq> set [] \<union> set (drop (length sep - 1) cs)" by (rule 2(1) [OF True])
      moreover have "set (drop (length sep - 1) cs) \<subseteq> set cs" by (rule set_drop_subset)
      ultimately show ?thesis by auto
    qed
  next
    case False
    with 2(3) have "w \<in> set (split_from sep (cur @ [c]) cs)" by simp
    then have "set w \<subseteq> set (cur @ [c]) \<union> set cs" by (rule 2(2) [OF False])
    then show ?thesis by auto
  qed
qed

lemma split_space_filter:
  "\<forall>c\<in>set w. isspace c \<longrightarrow> c = 32 \<Longrightarrow>
     filter (\<lambda>t. t \<noteq> []) (split_from [32] cur w) = split_ws_from cur w"
proof (induction w arbitrary: cur)
  case Nil
  show ?case by simp
next
  case (Cons c w)
  from Cons.prems have w: "\<forall>d\<in>set w. isspace d \<longrightarrow> d = 32" by simp
  show ?case
  proof (cases "c = 32")
    case True
    have "split_from [32] cur (c # w) = cur # split_from [32] [] w"
      unfolding True by simp
    moreover have "split_ws_from cur (c # w)
        = (if cur = [] then [] else [cur]) @ split_ws_from [] w"
      unfolding True by (simp add: isspace_32)
    ultimately show ?thesis using Cons.IH [OF w, of "[]"] by simp
  next
    case False
    with Cons.prems have n: "\<not> isspace c" by auto
    have "split_from [32] cur (c # w) = split_from [32] (cur @ [c]) w"
      using False by simp
    moreover have "split_ws_from cur (c # w) = split_ws_from (cur @ [c]) w"
      using n by simp
    ultimately show ?thesis using Cons.IH [OF w, of "cur @ [c]"] by simp
  qed
qed

lemma letters_are_nonempty_tokens:
  assumes "\<forall>c\<in>set morse. isspace c \<longrightarrow> c = 32"
  shows "letter_tokens morse = filter (\<lambda>t. t \<noteq> []) (spec_letter_tokens morse)"
proof -
  let ?ws = "split_from [32, 32, 32] [] morse"
  have 1: "letter_tokens morse = split_ws morse"
    using split_ws_words [of "[32, 32, 32]" "[]" "strip morse"]
    by (simp add: letter_tokens_def str_def split_ws_strip)
  have fw: "filter (\<lambda>t. t \<noteq> []) (split_from [32] [] w) = split_ws w" if "w \<in> set ?ws" for w
  proof -
    from that have "set w \<subseteq> set [] \<union> set morse" by (rule split_from_pieces)
    with assms have "\<forall>c\<in>set w. isspace c \<longrightarrow> c = 32" by auto
    then show ?thesis unfolding split_ws_def by (rule split_space_filter)
  qed
  have m: "map (\<lambda>w. filter (\<lambda>t. t \<noteq> []) (split_from [32] [] w)) ?ws = map split_ws ?ws"
    by (rule map_cong [OF refl]) (rule fw)
  have "filter (\<lambda>t. t \<noteq> []) (spec_letter_tokens morse)
          = concat (map (\<lambda>w. filter (\<lambda>t. t \<noteq> []) (split_from [32] [] w)) ?ws)"
    by (simp add: spec_letter_tokens_def str_def filter_concat comp_def)
  also have "\<dots> = concat (map split_ws ?ws)" by (simp only: m)
  also have "\<dots> = split_ws morse"
    using split_ws_words [of "[32, 32, 32]" "[]" morse] by simp
  finally show ?thesis using 1 by simp
qed

lemma letter_tokens_no_empty: "[] \<notin> set (letter_tokens morse)"
  by (auto simp: letter_tokens_def split_ws_def split_ws_from_no_empty)

section \<open>Claims about the decoder\<close>

text \<open>
  C6. \<open>decode_morse_code\<close> is total: for every input string it returns a text and raises no
  error (the separator it splits on is not empty, the lookup has a default); the empty
  string decodes to the empty string.
\<close>

theorem decode_never_fails:
  "(\<exists>text. decode_morse_code morse = Inr text) \<and> decode_morse_code [] = Inr []"
  by (simp add: decode_morse_code_def split_sep_def str_def strip_def decode_words_def
      decode_letters_def split_ws_def isspace_def)

text \<open>
  C7, as the specification words it, fails for the empty token. The encoder produces the
  buffer of a dot, four spaces and a dot (a blink, a letter-space, a word-space behind it,
  a blink). Split into words on the word-space marker and into letters on single spaces,
  it holds an empty token, which the table does not know; yet the decoded text is \<open>E E\<close>,
  with no lozenge: the empty token is dropped silently.
\<close>

theorem empty_token_dropped:
  "morse_code (run_loop
       (list_clock [100, 100.1, 100.1, 100.1, 100.3, 100.3, 100.3, 100.3, 101.2, 101.2,
                    101.2, 102.3, 102.3, 102.4, 102.4, 102.4, 102.6, 102.6, 102.6, 102.6])
       (init (list_clock [100, 100.1, 100.1, 100.1, 100.3, 100.3, 100.3, 100.3, 101.2, 101.2,
                    101.2, 102.3, 102.3, 102.4, 102.4, 102.4, 102.6, 102.6, 102.6, 102.6]) 0.03)
       [one_face (face_with 0), one_face (face_with 0.1), one_face (face_with 0.1),
        one_face (face_with 0.1), one_face (face_with 0), one_face (face_with 0.1)])
     = str ''.    .''
   \<and> spec_letter_tokens (str ''.    .'') = [str ''.'', [], str ''.'']
   \<and> map_of morse_code_map [] = None
   \<and> decode_morse_code (str ''.    .'') = Inr (str ''E E'')
   \<and> lozenge \<notin> set (str ''E E'')"
  by (simp add: run_defs decode_defs spec_letter_tokens_def)

text \<open>
  C7, amended. The letters that the decoder looks up are the non-empty tokens: it takes
  them with \<open>word.split()\<close>, which collapses runs of whitespace, so an empty token (between
  two adjacent spaces) is skipped without a placeholder. Every letter that is not a key of
  the table is looked up as the placeholder, which carries the lozenge; no value of the
  table contains the lozenge, so it is distinguishable. Decoding never fails, and no
  non-empty unknown token is dropped: the decoded text holds exactly one lozenge for every
  letter of the buffer that the table does not know. For a buffer whose only whitespace
  is the space (as every buffer of dots, dashes and spaces), these letters are exactly the
  non-empty tokens of the specification.
\<close>

theorem unknown_letter_placeholder:
  "(map_of morse_code_map letter = None \<longrightarrow>
      dict_get morse_code_map letter placeholder = placeholder)
   \<and> count_list placeholder lozenge = 1
   \<and> list_all (\<lambda>(k, v). lozenge \<notin> set v) morse_code_map
   \<and> (\<exists>text. decode_morse_code morse = Inr text
        \<and> count_list text lozenge
            = length (filter (\<lambda>l. map_of morse_code_map l = None) (letter_tokens morse)))
   \<and> [] \<notin> set (letter_tokens morse)
   \<and> ((\<forall>c\<in>set morse. isspace c \<longrightarrow> c = 32) \<longrightarrow>
        letter_tokens morse = filter (\<lambda>t. t \<noteq> []) (spec_letter_tokens morse))"
proof -
  have 2: "count_list placeholder lozenge = 1"
    by (simp add: placeholder_def lozenge_def)
  have "\<not> isspace lozenge" by (simp add: isspace_def lozenge_def)
  then have 3: "count_list (strip (decode_words [] (split_from (str ''   '') [] (strip morse)))) lozenge
            = length (filter (\<lambda>l. map_of morse_code_map l = None) (letter_tokens morse))"
    by (simp add: count_list_strip count_lozenge_words letter_tokens_def)
  from 2 3 table_values_plain letter_tokens_no_empty [of morse]
    letters_are_nonempty_tokens [of morse]
  show ?thesis by (simp add: decode_result dict_get_def)
qed

theorem unknown_letter_placeholder_witness:
  "map_of morse_code_map (str ''.-.-.-.-'') = None
   \<and> dict_get morse_code_map (str ''.-.-.-.-'') placeholder = placeholder
   \<and> list_all (\<lambda>c. c = 46 \<or> c = 45 \<or> c = 32) (str ''... ---  .-.-.-.-'')
   \<and> spec_letter_tokens (str ''... ---  .-.-.-.-'')
       = [str ''...'', str ''---'', [], str ''.-.-.-.-'']
   \<and> letter_tokens (str ''... ---  .-.-.-.-'') = [str ''...'', str ''---'', str ''.-.-.-.-'']
   \<and> decode_morse_code (str ''... ---  .-.-.-.-'') = Inr (str ''SO'' @ [32, lozenge])
   \<and> count_list (str ''SO'' @ [32, lozenge]) lozenge = 1"
  using unknown_letter_placeholder [of "str ''.-.-.-.-''" "str ''... ---  .-.-.-.-''"]
  by (simp add: decode_defs spec_letter_tokens_def)

text \<open>
  C8. For every input buffer the decoded text is the concatenation of the decoded letters
  of each word, the words joined by exactly one space, with leading and trailing
  whitespace trimmed: the result is empty or neither begins nor ends with whitespace.
\<close>

theorem decode_joins_words:
  "decode_morse_code morse = Inr (spec_join_decode morse)
   \<and> (spec_join_decode morse = []
       \<or> (\<not> isspace (hd (spec_join_decode morse)) \<and> \<not> isspace (last (spec_join_decode morse))))"
proof -
  let ?ws = "split_from (str ''   '') [] (strip morse)"
  have "decode_words [] ?ws
          = join_with [32] (map (\<lambda>w. concat (map (\<lambda>l. dict_get morse_code_map l placeholder)
                                               (split_ws w))) ?ws) @ [32]"
    by (simp add: decode_words_concat concat_trailing_join split_from_nonempty)
  then have "decode_morse_code morse = Inr (spec_join_decode morse)"
    by (simp add: decode_result spec_join_decode_def strip_snoc_space isspace_32 str_def)
  moreover have "spec_join_decode morse = []
       \<or> (\<not> isspace (hd (spec_join_decode morse)) \<and> \<not> isspace (last (spec_join_decode morse)))"
    unfolding spec_join_decode_def by (rule strip_ends)
  ultimately show ?thesis by blast
qed

theorem decode_joins_words_witness:
  "decode_morse_code (str ''  ... ---   .  '') = Inr (str ''SO E'')
   \<and> spec_join_decode (str ''  ... ---   .  '') = str ''SO E''
   \<and> \<not> isspace (hd (str ''SO E'')) \<and> \<not> isspace (last (str ''SO E''))"
  using decode_joins_words [of "str ''  ... ---   .  ''"]
  by (simp add: decode_defs)

subsection \<open>Splitting what was joined\<close>

lemma split_sep3_token:
  "32 \<notin> set t \<Longrightarrow> split_from [32, 32, 32] cur (t @ rest) = split_from [32, 32, 32] (cur @ t) rest"
  by (induction t arbitrary: cur) auto

lemma split_sep3_single_space:
  "c \<noteq> 32 \<Longrightarrow> split_from [32, 32, 32] cur (32 # c # rest)
     = split_from [32, 32, 32] (cur @ [32]) (c # rest)"
  by simp

lemma split_sep3_letters:
  assumes "cs \<noteq> []" and "\<forall>t\<in>set cs. t \<noteq> [] \<and> 32 \<notin> set t"
  shows "split_from [32, 32, 32] cur (join_with [32] cs @ rest)
           = split_from [32, 32, 32] (cur @ join_with [32] cs) rest"
  using assms
proof (induction cs arbitrary: cur rule: induct_list012)
  case 1
  then show ?case by simp
next
  case (2 t)
  then show ?case by (simp add: split_sep3_token)
next
  case (3 t u us)
  from 3(4) have t: "32 \<notin> set t" and u: "u \<noteq> []" "32 \<notin> set u" by auto
  from u obtain c u' where cu: "u = c # u'" "c \<noteq> 32" by (cases u) auto
  obtain j where j: "join_with [32] (u # us) = c # j"
    using cu by (cases us) simp_all
  have "split_from [32, 32, 32] (cur @ t) (32 # join_with [32] (u # us) @ rest)
               = split_from [32, 32, 32] ((cur @ t) @ [32]) (join_with [32] (u # us) @ rest)"
    unfolding j using cu(2) by simp
  moreover have "split_from [32, 32, 32] ((cur @ t) @ [32]) (join_with [32] (u # us) @ rest)
               = split_from [32, 32, 32] (((cur @ t) @ [32]) @ join_with [32] (u # us)) rest"
    using 3(2) [of "(cur @ t) @ [32]"] 3(4) by simp
  ultimately show ?case
    using t by (simp add: split_sep3_token)
qed

lemma split_sep3_words:
  assumes "es \<noteq> []"
    and "\<forall>e\<in>set es. \<exists>cs. cs \<noteq> [] \<and> (\<forall>t\<in>set cs. t \<noteq> [] \<and> 32 \<notin> set t) \<and> e = join_with [32] cs"
  shows "split_from [32, 32, 32] [] (join_with [32, 32, 32] es) = es"
  using assms
proof (induction es rule: induct_list012)
  case 1
  then show ?case by simp
next
  case (2 e)
  then obtain cs where "cs \<noteq> []" "\<forall>t\<in>set cs. t \<noteq> [] \<and> 32 \<notin> set t" "e = join_with [32] cs"
    by auto
  then show ?case using split_sep3_letters [of cs "[]" "[]"] by simp
next
  case (3 e f fs)
  then obtain cs where cs: "cs \<noteq> []" "\<forall>t\<in>set cs. t \<noteq> [] \<and> 32 \<notin> set t" "e = join_with [32] cs"
    by auto
  have "split_from [32, 32, 32] [] (e @ [32, 32, 32] @ join_with [32, 32, 32] (f # fs))
          = split_from [32, 32, 32] e ([32, 32, 32] @ join_with [32, 32, 32] (f # fs))"
    using split_sep3_letters [OF cs(1,2), of "[]"] cs(3) by simp
  also have "\<dots> = e # split_from [32, 32, 32] [] (join_with [32, 32, 32] (f # fs))"
    by simp
  finally show ?case using 3 by simp
qed

lemma split_space_word:
  "32 \<notin> set w \<Longrightarrow> split_from [32] cur (w @ rest) = split_from [32] (cur @ w) rest"
  by (induction w arbitrary: cur) auto

lemma split_space_words:
  assumes "ws \<noteq> []" and "\<forall>w\<in>set ws. 32 \<notin> set w"
  shows "split_from [32] cur (join_with [32] ws) = (cur @ hd ws) # tl ws"
  using assms
proof (induction ws arbitrary: cur rule: induct_list012)
  case 1
  then show ?case by simp
next
  case (2 w)
  then show ?case using split_space_word [of w cur "[]"] by simp
next
  case (3 w v vs)
  have "split_from [32] cur (w @ 32 # join_with [32] (v # vs))
          = split_from [32] (cur @ w) (32 # join_with [32] (v # vs))"
    using 3(4) by (simp add: split_space_word)
  also have "\<dots> = (cur @ w) # split_from [32] [] (join_with [32] (v # vs))" by simp
  also have "\<dots> = (cur @ w) # v # vs" using 3(2) [of "[]"] 3(4) by simp
  finally show ?case by simp
qed

lemma split_ws_token:
  "\<forall>c\<in>set t. \<not> isspace c \<Longrightarrow> split_ws_from cur (t @ rest) = split_ws_from (cur @ t) rest"
  by (induction t arbitrary: cur) auto

lemma split_ws_letters:
  assumes "\<forall>t\<in>set cs. t \<noteq> [] \<and> (\<forall>c\<in>set t. \<not> isspace c)"
  shows "split_ws_from [] (join_with [32] cs) = cs"
  using assms
proof (induction cs rule: induct_list012)
  case 1
  then show ?case by simp
next
  case (2 t)
  then show ?case using split_ws_token [of t "[]" "[]"] by simp
next
  case (3 t u us)
  have "split_ws_from [] (t @ 32 # join_with [32] (u # us))
          = split_ws_from t (32 # join_with [32] (u # us))"
    using 3(3) split_ws_token [of t "[]"] by simp
  also have "\<dots> = t # split_ws_from [] (join_with [32] (u # us))"
    using 3(3) by (simp add: isspace_32)
  finally show ?case using 3 by simp
qed

lemma hd_join_with: "xs \<noteq> [] \<Longrightarrow> hd xs \<noteq> [] \<Longrightarrow> hd (join_with sep xs) = hd (hd xs)"
  by (induction xs rule: induct_list012) simp_all

lemma join_with_last_nonempty: "xs \<noteq> [] \<Longrightarrow> last xs \<noteq> [] \<Longrightarrow> join_with sep xs \<noteq> []"
  by (induction xs rule: induct_list012) simp_all

lemma last_join_with:
  "xs \<noteq> [] \<Longrightarrow> last xs \<noteq> [] \<Longrightarrow> last (join_with sep xs) = last (last xs)"
proof (induction xs rule: induct_list012)
  case 1
  then show ?case by simp
next
  case (2 x)
  then show ?case by simp
next
  case (3 x y zs)
  then have "join_with sep (y # zs) \<noteq> []"
    using join_with_last_nonempty [of "y # zs" sep] by simp
  with 3 show ?case by simp
qed

lemma join_with_nonempty: "xs \<noteq> [] \<Longrightarrow> hd xs \<noteq> [] \<Longrightarrow> join_with sep xs \<noteq> []"
  by (induction xs rule: induct_list012) simp_all

lemma strip_tight:
  assumes "s \<noteq> []" and "\<not> isspace (hd s)" and "\<not> isspace (last s)"
  shows "strip s = s"
proof -
  have 1: "dropWhile isspace s = s" using assms(1,2) by (cases s) simp_all
  have "rev s \<noteq> []" and "\<not> isspace (hd (rev s))" using assms(1,3) by (simp_all add: hd_rev)
  then have "dropWhile isspace (rev s) = rev s" by (cases "rev s") simp_all
  with 1 show ?thesis by (simp add: strip_def)
qed

subsection \<open>The table and its inverse\<close>

lemma table_inverse:
  "list_all (\<lambda>c. canonical c \<noteq> [] \<and> list_all (\<lambda>x. x = 46 \<or> x = 45) (canonical c)
                  \<and> dict_get morse_code_map (canonical c) placeholder = [c] \<and> \<not> isspace c)
     (str ''ABCDEFGHIJKLMNOPQRSTUVWXYZ0123456789.!,'')"
  by (simp add: canonical_def dict_get_def morse_code_map_def str_def isspace_def)

lemma covered_canonical:
  assumes "covered c"
  shows "canonical c \<noteq> []" and "\<forall>x\<in>set (canonical c). x = 46 \<or> x = 45"
    and "dict_get morse_code_map (canonical c) placeholder = [c]" and "\<not> isspace c"
  using assms table_inverse unfolding covered_def list_all_iff by blast+

lemma token_chars:
  assumes "\<forall>x\<in>set t. x = 46 \<or> x = 45"
  shows "32 \<notin> set t" and "\<forall>c\<in>set t. \<not> isspace c"
  using assms by (auto simp: isspace_def)

lemma encoded_word:
  assumes "w \<noteq> []" and "\<forall>c\<in>set w. covered c"
  shows "map canonical w \<noteq> []"
    and "\<forall>t\<in>set (map canonical w). t \<noteq> [] \<and> 32 \<notin> set t"
    and "\<forall>t\<in>set (map canonical w). t \<noteq> [] \<and> (\<forall>c\<in>set t. \<not> isspace c)"
    and "join_with [32] (map canonical w) \<noteq> []"
    and "\<not> isspace (hd (join_with [32] (map canonical w)))"
    and "\<not> isspace (last (join_with [32] (map canonical w)))"
proof -
  show 1: "map canonical w \<noteq> []" using assms(1) by simp
  have t: "t \<noteq> [] \<and> 32 \<notin> set t \<and> (\<forall>c\<in>set t. \<not> isspace c)" if "t \<in> set (map canonical w)" for t
  proof -
    from that obtain c where "c \<in> set w" and c: "t = canonical c" by auto
    with assms(2) have "covered c" by blast
    then have "canonical c \<noteq> []" and "\<forall>x\<in>set (canonical c). x = 46 \<or> x = 45"
      by (rule covered_canonical(1), rule covered_canonical(2))
    then show ?thesis unfolding c using token_chars [of "canonical c"] by blast
  qed
  show 2: "\<forall>t\<in>set (map canonical w). t \<noteq> [] \<and> 32 \<notin> set t" using t by blast
  show 3: "\<forall>t\<in>set (map canonical w). t \<noteq> [] \<and> (\<forall>c\<in>set t. \<not> isspace c)" using t by blast
  have h: "hd (map canonical w) \<in> set (map canonical w)"
    and l: "last (map canonical w) \<in> set (map canonical w)"
    using 1 by (simp_all only: hd_in_set last_in_set not_False_eq_True)
  from h 3 have hn: "hd (map canonical w) \<noteq> []" by blast
  from l 3 have ln: "last (map canonical w) \<noteq> []" by blast
  show "join_with [32] (map canonical w) \<noteq> []"
    using 1 hn by (rule join_with_nonempty)
  have "hd (hd (map canonical w)) \<in> set (hd (map canonical w))" using hn by simp
  with h 3 have "\<not> isspace (hd (hd (map canonical w)))" by blast
  then show "\<not> isspace (hd (join_with [32] (map canonical w)))"
    using hd_join_with [OF 1 hn] by simp
  have "last (last (map canonical w)) \<in> set (last (map canonical w))" using ln by simp
  with l 3 have "\<not> isspace (last (last (map canonical w)))" by blast
  then show "\<not> isspace (last (join_with [32] (map canonical w)))"
    using last_join_with [OF 1 ln] by simp
qed

lemma decode_encoded_word:
  assumes "w \<noteq> []" and "\<forall>c\<in>set w. covered c"
  shows "concat (map (\<lambda>l. dict_get morse_code_map l placeholder)
           (split_ws (join_with [32] (map canonical w)))) = w"
proof -
  have "split_ws (join_with [32] (map canonical w)) = map canonical w"
    unfolding split_ws_def using encoded_word(3) [OF assms] by (rule split_ws_letters)
  moreover have "concat (map (\<lambda>l. dict_get morse_code_map l placeholder) (map canonical v)) = v"
    if "\<forall>c\<in>set v. covered c" for v
    using that by (induction v) (simp_all add: covered_canonical(3))
  ultimately show ?thesis using assms(2) by simp
qed

lemma roundtrip_words:
  assumes ws: "\<forall>w\<in>set ws. w \<noteq> [] \<and> (\<forall>c\<in>set w. covered c)"
  shows "decode_morse_code (encode_reference (join_with [32] ws)) = Inr (join_with [32] ws)"
proof (cases "ws = []")
  case True
  then show ?thesis
    by (simp add: encode_reference_def str_def decode_result strip_def decode_words_def
        decode_letters_def split_ws_def isspace_def)
next
  case False
  let ?enc = "\<lambda>w. join_with [32] (map canonical w)"
  let ?es = "map ?enc ws"
  let ?E = "join_with [32, 32, 32] ?es"
  have free: "\<forall>w\<in>set ws. 32 \<notin> set w"
    using ws covered_canonical(4) isspace_32 by blast
  have "split_from [32] [] (join_with [32] ws) = ws"
    using split_space_words [OF False free, of "[]"] False by simp
  then have enc: "encode_reference (join_with [32] ws) = ?E"
    by (simp add: encode_reference_def str_def)
  have es: "?es \<noteq> []" using False by simp
  have hd_es: "hd ?es = ?enc (hd ws)" and last_es: "last ?es = ?enc (last ws)"
    using False by (simp_all add: hd_map last_map)
  have hw: "hd ws \<noteq> [] \<and> (\<forall>c\<in>set (hd ws). covered c)"
    and lw: "last ws \<noteq> [] \<and> (\<forall>c\<in>set (last ws). covered c)"
    using ws False hd_in_set [of ws] last_in_set [of ws] by blast+
  have hne: "hd ?es \<noteq> []" and lne: "last ?es \<noteq> []"
    unfolding hd_es last_es using encoded_word(4) hw lw by blast+
  have "?E \<noteq> []" using es hne by (rule join_with_nonempty)
  moreover have "\<not> isspace (hd ?E)"
    unfolding hd_join_with [OF es hne] hd_es using encoded_word(5) hw by blast
  moreover have "\<not> isspace (last ?E)"
    unfolding last_join_with [OF es lne] last_es using encoded_word(6) lw by blast
  ultimately have strip_E: "strip ?E = ?E" by (rule strip_tight)
  have "\<forall>e\<in>set ?es. \<exists>cs. cs \<noteq> [] \<and> (\<forall>t\<in>set cs. t \<noteq> [] \<and> 32 \<notin> set t) \<and> e = join_with [32] cs"
  proof
    fix e assume "e \<in> set ?es"
    then obtain w where w: "w \<in> set ws" "e = ?enc w" by auto
    with ws have "w \<noteq> []" "\<forall>c\<in>set w. covered c" by auto
    then have "map canonical w \<noteq> []" "\<forall>t\<in>set (map canonical w). t \<noteq> [] \<and> 32 \<notin> set t"
      by (rule encoded_word(1), rule encoded_word(2))
    with w(2) show "\<exists>cs. cs \<noteq> [] \<and> (\<forall>t\<in>set cs. t \<noteq> [] \<and> 32 \<notin> set t) \<and> e = join_with [32] cs"
      by blast
  qed
  with es have split_E: "split_from [32, 32, 32] [] ?E = ?es" by (rule split_sep3_words)
  have "map (\<lambda>e. concat (map (\<lambda>l. dict_get morse_code_map l placeholder) (split_ws e)) @ [32]) ?es
          = map (\<lambda>w. w @ [32]) ws"
    using ws by (simp add: decode_encoded_word)
  then have "decode_words [] ?es = concat (map (\<lambda>w. w @ [32]) ws)"
    by (simp only: decode_words_concat append_Nil)
  also have "\<dots> = join_with [32] (map (\<lambda>w. w) ws) @ [32]"
    using False by (rule concat_trailing_join)
  finally have words: "decode_words [] ?es = join_with [32] ws @ [32]" by simp
  have "join_with [32] ws \<noteq> []" using False hw by (simp add: join_with_nonempty)
  moreover have "hd (hd ws) \<in> set (hd ws)" using hw by simp
  then have "\<not> isspace (hd (join_with [32] ws))"
    using hd_join_with [of ws "[32]"] False hw covered_canonical(4) by simp
  moreover have "last (last ws) \<in> set (last ws)" using lw by simp
  then have "\<not> isspace (last (join_with [32] ws))"
    using last_join_with [of ws "[32]"] False lw covered_canonical(4) by simp
  ultimately have "strip (join_with [32] ws) = join_with [32] ws" by (rule strip_tight)
  then have "strip (decode_words [] ?es) = join_with [32] ws"
    by (simp add: words strip_snoc_space isspace_32)
  then show ?thesis
    by (simp add: enc decode_result str_def strip_E split_E)
qed

text \<open>
  C5. Round trip: a text made of characters that the table covers decodes back from its
  reference encoding. This holds for a text without spaces, and for any text of non-empty
  words of covered characters separated by single spaces, whose reference encoding joins
  the letters of a word by single spaces and the words by triple spaces.
\<close>

theorem decode_encode_reference:
  "((\<forall>c\<in>set text. covered c) \<longrightarrow> decode_morse_code (encode_reference text) = Inr text)
   \<and> ((\<forall>w\<in>set ws. w \<noteq> [] \<and> (\<forall>c\<in>set w. covered c)) \<longrightarrow>
        decode_morse_code (encode_reference (join_with (str '' '') ws))
          = Inr (join_with (str '' '') ws))"
proof -
  have sp: "str '' '' = [32]" by (simp add: str_def)
  have 1: "decode_morse_code (encode_reference text) = Inr text" if "\<forall>c\<in>set text. covered c"
  proof (cases "text = []")
    case True
    then show ?thesis using roundtrip_words [of "[]"] by simp
  next
    case False
    with that show ?thesis using roundtrip_words [of "[text]"] by simp
  qed
  have 2: "decode_morse_code (encode_reference (join_with (str '' '') ws))
             = Inr (join_with (str '' '') ws)"
    if "\<forall>w\<in>set ws. w \<noteq> [] \<and> (\<forall>c\<in>set w. covered c)"
    unfolding sp using that by (rule roundtrip_words)
  from 1 2 show ?thesis by blast
qed

theorem decode_encode_reference_witness:
  "list_all covered (str ''SOS'')
   \<and> decode_morse_code (encode_reference (str ''SOS'')) = Inr (str ''SOS'')
   \<and> list_all (\<lambda>w. w \<noteq> [] \<and> list_all covered w) [str ''SOS'', str ''73'']
   \<and> join_with (str '' '') [str ''SOS'', str ''73''] = str ''SOS 73''
   \<and> decode_morse_code (encode_reference (str ''SOS 73'')) = Inr (str ''SOS 73'')"
  using decode_encode_reference [of "str ''SOS''" "[str ''SOS'', str ''73'']"]
  by (simp add: covered_def str_def)

end
